theory Spec2Isabelle
  imports Main
begin

section \<open>Python iterators as pull machines\<close>

text \<open>
  The library wraps Python iterators. An iterator object is modelled by its
  \<open>__next__\<close> behaviour, a function on the iterator's internal state, and by
  that state. One call of \<open>next(it)\<close> at state \<open>s\<close> has three outcomes:
  \<^item> \<open>Some (Some x, s')\<close>: the call returns the element \<open>x\<close> and leaves the
    iterator at \<open>s'\<close>;
  \<^item> \<open>Some (None, s')\<close>: the call raises \<open>StopIteration\<close> and leaves the
    iterator at \<open>s'\<close> (an exhausted \<open>zip\<close> or \<open>take\<close> may still have advanced
    the iterator below it);
  \<^item> \<open>None\<close>: the call never returns (a \<open>filter\<close> whose predicate rejects
    every later element of an endless source).
  A derived iterator holds a reference to the iterator it was built from; in
  the model its state contains the state of that iterator, so the position of
  the shared producer can be read off the derived iterator's state.
\<close>

type_synonym ('s, 'a) next_fn = "'s \<Rightarrow> ('a option \<times> 's) option"

text \<open>\<open>class Iter\<close>: the fields \<open>_iter\<close> (behaviour and state) and \<open>_infinite\<close>.\<close>

record ('s, 'a) Iter =
  iter_next :: "('s, 'a) next_fn"
  iter_state :: 's
  infinite_flag :: bool

text \<open>\<open>Iter.__init__(iterable, infinite=False)\<close>; the second form is the call
  \<open>Iter(iterable)\<close> that leaves \<open>infinite\<close> at its default.\<close>

definition Iter_init :: "('s, 'a) next_fn \<Rightarrow> 's \<Rightarrow> bool \<Rightarrow> ('s, 'a) Iter" where
  "Iter_init nx s infinite_arg = \<lparr>iter_next = nx, iter_state = s, infinite_flag = infinite_arg\<rparr>"

definition Iter_default :: "('s, 'a) next_fn \<Rightarrow> 's \<Rightarrow> ('s, 'a) Iter" where
  "Iter_default nx s = Iter_init nx s False"

text \<open>\<open>Iter.__next__\<close> called \<open>n\<close> times in a row, stopping at the first
  \<open>StopIteration\<close>: the elements returned and the state reached.\<close>

fun pulls :: "('s, 'a) next_fn \<Rightarrow> 's \<Rightarrow> nat \<Rightarrow> ('a list \<times> 's) option" where
  "pulls nx s 0 = Some ([], s)"
| "pulls nx s (Suc n) =
     (case nx s of
        None \<Rightarrow> None
      | Some (None, s') \<Rightarrow> Some ([], s')
      | Some (Some x, s') \<Rightarrow>
          (case pulls nx s' n of
             None \<Rightarrow> None
           | Some (xs, s'') \<Rightarrow> Some (x # xs, s'')))"

definition Iter_pulls :: "('s, 'a) Iter \<Rightarrow> nat \<Rightarrow> ('a list \<times> 's) option" where
  "Iter_pulls w n = pulls (iter_next w) (iter_state w) n"

subsection \<open>Sources\<close>

text \<open>The iterator of a Python list: the state is the part not yet returned.\<close>

fun list_next :: "('a list, 'a) next_fn" where
  "list_next [] = Some (None, [])"
| "list_next (x # xs) = Some (Some x, xs)"

definition Iter_of_list :: "'a list \<Rightarrow> ('a list, 'a) Iter" where
  "Iter_of_list xs = Iter_default list_next xs"

text \<open>\<open>itertools.count(start, step)\<close>: the state is the next number.\<close>

definition count_next :: "int \<Rightarrow> (int, int) next_fn" where
  "count_next step n = Some (Some n, n + step)"

definition Iter_count :: "int \<Rightarrow> int \<Rightarrow> (int, int) Iter" where
  "Iter_count start step = Iter_init (count_next step) start True"

subsection \<open>Single-source lazy transformations\<close>

text \<open>The builtin \<open>map(func, it)\<close>.\<close>

definition map_next :: "('a \<Rightarrow> 'b) \<Rightarrow> ('s, 'a) next_fn \<Rightarrow> ('s, 'b) next_fn" where
  "map_next func nx s =
     (case nx s of
        None \<Rightarrow> None
      | Some (None, s') \<Rightarrow> Some (None, s')
      | Some (Some x, s') \<Rightarrow> Some (Some (func x), s'))"

definition Iter_map :: "('a \<Rightarrow> 'b) \<Rightarrow> ('s, 'a) Iter \<Rightarrow> ('s, 'b) Iter" where
  "Iter_map func self = Iter_default (map_next func (iter_next self)) (iter_state self)"

text \<open>The builtin \<open>filter(predicate, it)\<close>: it pulls until an element passes.\<close>

partial_function (option) filter_next ::
  "('a \<Rightarrow> bool) \<Rightarrow> ('s, 'a) next_fn \<Rightarrow> 's \<Rightarrow> ('a option \<times> 's) option" where
  "filter_next predicate nx s =
     (case nx s of
        None \<Rightarrow> None
      | Some r \<Rightarrow>
          (case fst r of
             None \<Rightarrow> Some (None, snd r)
           | Some x \<Rightarrow>
               if predicate x then Some (Some x, snd r)
               else filter_next predicate nx (snd r)))"

definition Iter_filter :: "('a \<Rightarrow> bool) \<Rightarrow> ('s, 'a) Iter \<Rightarrow> ('s, 'a) Iter" where
  "Iter_filter predicate self =
     Iter_default (filter_next predicate (iter_next self)) (iter_state self)"

text \<open>The generator of \<open>filter_map\<close>. A generator that has run to its end stays
  finished: the first component of its state records that.\<close>

partial_function (option) filter_map_gen ::
  "('a \<Rightarrow> 'b option) \<Rightarrow> ('s, 'a) next_fn \<Rightarrow> bool \<times> 's \<Rightarrow> ('b option \<times> bool \<times> 's) option" where
  "filter_map_gen func nx g =
     (if fst g then Some (None, g)
      else case nx (snd g) of
        None \<Rightarrow> None
      | Some r \<Rightarrow>
          (case fst r of
             None \<Rightarrow> Some (None, (True, snd r))
           | Some item \<Rightarrow>
               (case func item of
                  None \<Rightarrow> filter_map_gen func nx (False, snd r)
                | Some result \<Rightarrow> Some (Some result, (False, snd r)))))"

definition Iter_filter_map ::
  "('a \<Rightarrow> 'b option) \<Rightarrow> ('s, 'a) Iter \<Rightarrow> (bool \<times> 's, 'b) Iter" where
  "Iter_filter_map func self =
     Iter_default (filter_map_gen func (iter_next self)) (False, iter_state self)"

text \<open>The builtin \<open>enumerate(it, start)\<close>: the state is the running index and
  the state of \<open>it\<close>.\<close>

definition enumerate_next :: "('s, 'a) next_fn \<Rightarrow> (int \<times> 's, int \<times> 'a) next_fn" where
  "enumerate_next nx e =
     (case nx (snd e) of
        None \<Rightarrow> None
      | Some (None, s') \<Rightarrow> Some (None, (fst e, s'))
      | Some (Some x, s') \<Rightarrow> Some (Some (fst e, x), (fst e + 1, s')))"

definition Iter_enumerate :: "('s, 'a) Iter \<Rightarrow> int \<Rightarrow> (int \<times> 's, int \<times> 'a) Iter" where
  "Iter_enumerate self start =
     Iter_default (enumerate_next (iter_next self)) (start, iter_state self)"

subsection \<open>More sources\<close>

datatype error = InfiniteIteratorError string | TypeError | ValueError

text \<open>\<open>range(*args)\<close>: one to three integers; any other number of arguments
  is a \<open>TypeError\<close>, a zero step a \<open>ValueError\<close>. The iterator's state is the
  next number, the stop and the step.\<close>

fun range_args :: "int list \<Rightarrow> error + (int \<times> int \<times> int)" where
  "range_args [stop] = Inr (0, stop, 1)"
| "range_args [start, stop] = Inr (start, stop, 1)"
| "range_args [start, stop, step] =
     (if step = 0 then Inl ValueError else Inr (start, stop, step))"
| "range_args _ = Inl TypeError"

fun range_next :: "(int \<times> int \<times> int, int) next_fn" where
  "range_next (cur, stop, step) =
     (if (0 < step \<and> cur < stop) \<or> (step < 0 \<and> stop < cur)
      then Some (Some cur, (cur + step, stop, step))
      else Some (None, (cur, stop, step)))"

definition Iter_range :: "int list \<Rightarrow> error + (int \<times> int \<times> int, int) Iter" where
  "Iter_range args =
     (case range_args args of
        Inl e \<Rightarrow> Inl e
      | Inr r \<Rightarrow> Inr (Iter_default range_next r))"

text \<open>\<open>itertools.repeat(value)\<close> and \<open>itertools.repeat(value, times)\<close>: the
  state is the number of repetitions left, \<open>None\<close> when there is no bound.\<close>

fun repeat_next :: "'a \<Rightarrow> (int option, 'a) next_fn" where
  "repeat_next v None = Some (Some v, None)"
| "repeat_next v (Some cnt) =
     (if 0 < cnt then Some (Some v, Some (cnt - 1)) else Some (None, Some cnt))"

text \<open>\<open>Iter.repeat(value, times=None)\<close>. The test \<open>if times:\<close> is Python
  truthiness: it fails for \<open>None\<close> and for \<open>0\<close>.\<close>

definition Iter_repeat :: "'a \<Rightarrow> int option \<Rightarrow> (int option, 'a) Iter" where
  "Iter_repeat v times_arg =
     (case times_arg of
        Some t \<Rightarrow>
          if t \<noteq> 0 then Iter_default (repeat_next v) (Some t)
          else Iter_init (repeat_next v) None True
      | None \<Rightarrow> Iter_init (repeat_next v) None True)"

subsection \<open>chain, zip, take\<close>

text \<open>
  \<open>chain(self, *iterables)\<close>. The generator runs two loops, the first over
  \<open>self\<close>, the second over the other iterables in turn. Its state is the loop
  it is suspended in, the state of \<open>self\<close>'s iterator, the other iterables it
  has finished with and those still to go (the first of them being the one
  the inner loop is in).
\<close>

datatype chain_pc = InSelf | InOthers | Finished

fun chain_rest ::
  "('t, 'a) Iter list \<Rightarrow> ('t, 'a) Iter list \<Rightarrow>
   ('a option \<times> ('t, 'a) Iter list \<times> ('t, 'a) Iter list) option" where
  "chain_rest fin [] = Some (None, fin, [])"
| "chain_rest fin (i # rest) =
     (case iter_next i (iter_state i) of
        None \<Rightarrow> None
      | Some (Some j, t') \<Rightarrow> Some (Some j, fin, i\<lparr>iter_state := t'\<rparr> # rest)
      | Some (None, t') \<Rightarrow> chain_rest (fin @ [i\<lparr>iter_state := t'\<rparr>]) rest)"

definition chain_others ::
  "'s \<Rightarrow> ('t, 'a) Iter list \<Rightarrow> ('t, 'a) Iter list \<Rightarrow>
   ('a option \<times> chain_pc \<times> 's \<times> ('t, 'a) Iter list \<times> ('t, 'a) Iter list) option" where
  "chain_others s fin rest =
     (case chain_rest fin rest of
        None \<Rightarrow> None
      | Some (Some j, fin', rest') \<Rightarrow> Some (Some j, (InOthers, s, fin', rest'))
      | Some (None, fin', rest') \<Rightarrow> Some (None, (Finished, s, fin', rest')))"

fun chain_gen ::
  "('s, 'a) next_fn \<Rightarrow>
   (chain_pc \<times> 's \<times> ('t, 'a) Iter list \<times> ('t, 'a) Iter list, 'a) next_fn" where
  "chain_gen nx (Finished, s, fin, rest) = Some (None, (Finished, s, fin, rest))"
| "chain_gen nx (InSelf, s, fin, rest) =
     (case nx s of
        None \<Rightarrow> None
      | Some (Some i, s') \<Rightarrow> Some (Some i, (InSelf, s', fin, rest))
      | Some (None, s') \<Rightarrow> chain_others s' fin rest)"
| "chain_gen nx (InOthers, s, fin, rest) = chain_others s fin rest"

definition Iter_chain ::
  "('s, 'a) Iter \<Rightarrow> ('t, 'a) Iter list \<Rightarrow>
   (chain_pc \<times> 's \<times> ('t, 'a) Iter list \<times> ('t, 'a) Iter list, 'a) Iter" where
  "Iter_chain self iterables =
     Iter_default (chain_gen (iter_next self)) (InSelf, iter_state self, [], iterables)"

text \<open>
  \<open>zip(self._iter, *iterables)\<close>. One pull asks \<open>self\<close>, then the other
  iterables from left to right, and stops at the first that is exhausted;
  those asked before it have advanced. The tuple returned is modelled as the
  list of its components.
\<close>

fun zip_others ::
  "('t, 'a) Iter list \<Rightarrow> ('a list option \<times> ('t, 'a) Iter list) option" where
  "zip_others [] = Some (Some [], [])"
| "zip_others (i # rest) =
     (case iter_next i (iter_state i) of
        None \<Rightarrow> None
      | Some (None, t') \<Rightarrow> Some (None, i\<lparr>iter_state := t'\<rparr> # rest)
      | Some (Some y, t') \<Rightarrow>
          (case zip_others rest of
             None \<Rightarrow> None
           | Some (r, rest') \<Rightarrow> Some (map_option ((#) y) r, i\<lparr>iter_state := t'\<rparr> # rest')))"

definition zip_next ::
  "('s, 'a) next_fn \<Rightarrow> ('s \<times> ('t, 'a) Iter list, 'a list) next_fn" where
  "zip_next nx z =
     (case nx (fst z) of
        None \<Rightarrow> None
      | Some (None, s') \<Rightarrow> Some (None, (s', snd z))
      | Some (Some x, s') \<Rightarrow>
          (case zip_others (snd z) of
             None \<Rightarrow> None
           | Some (r, others') \<Rightarrow> Some (map_option ((#) x) r, (s', others'))))"

definition Iter_zip ::
  "('s, 'a) Iter \<Rightarrow> ('t, 'a) Iter list \<Rightarrow> ('s \<times> ('t, 'a) Iter list, 'a list) Iter" where
  "Iter_zip self iterables =
     Iter_default (zip_next (iter_next self)) (iter_state self, iterables)"

text \<open>
  \<open>take(self, items)\<close>. The generator loops over \<open>self.enumerate()\<close>; its
  state is whether it has finished and the state of that \<open>enumerate\<close>
  iterator, which starts at index 0 on \<open>self\<close>'s own iterator.
\<close>

definition take_gen ::
  "int \<Rightarrow> ('s, 'a) next_fn \<Rightarrow> (bool \<times> int \<times> 's, 'a) next_fn" where
  "take_gen items nx g =
     (if fst g then Some (None, g)
      else case enumerate_next nx (snd g) of
        None \<Rightarrow> None
      | Some (None, e') \<Rightarrow> Some (None, (True, e'))
      | Some (Some i, e') \<Rightarrow>
          if fst i \<ge> items then Some (None, (True, e'))
          else Some (Some (snd i), (False, e')))"

definition Iter_take :: "('s, 'a) Iter \<Rightarrow> int \<Rightarrow> (bool \<times> int \<times> 's, 'a) Iter" where
  "Iter_take self items =
     Iter_default (take_gen items (iter_next self))
       (False, iter_state (Iter_enumerate self 0))"

subsection \<open>Length\<close>

text \<open>\<open>__len__\<close> (and \<open>len\<close>, which calls it): the loop keeps the index of the
  last pair that \<open>self.enumerate()\<close> returned.\<close>

partial_function (option) len_loop ::
  "('s, 'a) next_fn \<Rightarrow> int \<times> 's \<Rightarrow> int \<Rightarrow> (int \<times> int \<times> 's) option" where
  "len_loop nx e total_acc =
     (case enumerate_next nx e of
        None \<Rightarrow> None
      | Some r \<Rightarrow>
          (case fst r of
             None \<Rightarrow> Some (total_acc, snd r)
           | Some i \<Rightarrow> len_loop nx (snd r) (fst i)))"

definition Iter_len :: "('s, 'a) Iter \<Rightarrow> (int \<times> 's) option" where
  "Iter_len self =
     (if infinite_flag self then Some (- 1, iter_state self)
      else
        (case len_loop (iter_next self) (iter_state (Iter_enumerate self 0)) 0 of
           None \<Rightarrow> None
         | Some (total_acc, e') \<Rightarrow> Some (total_acc, snd e')))"

subsection \<open>Finite-only operations\<close>

text \<open>
  The decorator \<open>requires_finite(error_message)\<close> applied to the method
  \<open>func\<close> named \<open>method_name\<close>. A guarded method returns its value, or the
  error raised, together with the state the wrapper's iterator is left in.
  An empty \<open>error_message\<close> is falsy, like \<open>None\<close>.
\<close>

definition requires_finite ::
  "string option \<Rightarrow> string \<Rightarrow> (('s, 'a) Iter \<Rightarrow> ((error + 'r) \<times> 's) option) \<Rightarrow>
   ('s, 'a) Iter \<Rightarrow> ((error + 'r) \<times> 's) option" where
  "requires_finite error_message method_name func self =
     (if infinite_flag self then
        let msg =
          (case error_message of
             Some m \<Rightarrow> if m \<noteq> [] then m
               else ''Cannot call '' @ method_name @ ''() on infinite iterator'' @ [CHR 0x0A] @
                    ''Use .take(n).'' @ method_name @ ''() first to limit the iterator''
           | None \<Rightarrow>
               ''Cannot call '' @ method_name @ ''() on infinite iterator'' @ [CHR 0x0A] @
               ''Use .take(n).'' @ method_name @ ''() first to limit the iterator'')
        in Some (Inl (InfiniteIteratorError msg), iter_state self)
      else func self)"

text \<open>The builtin \<open>sum(it)\<close> on an iterator: a running total that starts at 0.\<close>

partial_function (option) sum_loop ::
  "('s, 'a::monoid_add) next_fn \<Rightarrow> 's \<Rightarrow> 'a \<Rightarrow> ('a \<times> 's) option" where
  "sum_loop nx s total_acc =
     (case nx s of
        None \<Rightarrow> None
      | Some r \<Rightarrow>
          (case fst r of
             None \<Rightarrow> Some (total_acc, snd r)
           | Some x \<Rightarrow> sum_loop nx (snd r) (total_acc + x)))"

text \<open>The loop in which \<open>list\<close> fills the new list from an iterator: it
  appends until the iterator is exhausted.\<close>

partial_function (option) list_loop ::
  "('s, 'a) next_fn \<Rightarrow> 's \<Rightarrow> 'a list \<Rightarrow> ('a list \<times> 's) option" where
  "list_loop nx s acc =
     (case nx s of
        None \<Rightarrow> None
      | Some r \<Rightarrow>
          (case fst r of
             None \<Rightarrow> Some (acc, snd r)
           | Some x \<Rightarrow> list_loop nx (snd r) (acc @ [x])))"

text \<open>
  The builtin \<open>list(self)\<close> called on a wrapper. \<open>list\<close> takes \<open>iter(self)\<close>,
  which is the wrapper's own iterator, and before it pulls anything it asks
  the wrapper for a size hint. The class defines \<open>__len__\<close>, so the hint is a
  call of \<open>Iter.__len__\<close> on the same iterator (a negative result is a
  \<open>ValueError\<close>). Only then does the filling loop run, from the state in which
  \<open>__len__\<close> left the iterator.
\<close>

definition list_of_Iter :: "('s, 'a) Iter \<Rightarrow> ((error + 'a list) \<times> 's) option" where
  "list_of_Iter self =
     (case Iter_len self of
        None \<Rightarrow> None
      | Some (hint, s1) \<Rightarrow>
          if hint < 0 then Some (Inl ValueError, s1)
          else
            (case list_loop (iter_next self) s1 [] of
               None \<Rightarrow> None
             | Some (xs, s2) \<Rightarrow> Some (Inr xs, s2)))"

text \<open>\<open>sum\<close> passes the iterator itself, \<open>self._iter\<close>, to the builtin.\<close>

definition Iter_sum :: "('s, 'a::monoid_add) Iter \<Rightarrow> ((error + 'a) \<times> 's) option" where
  "Iter_sum = requires_finite None ''sum''
     (\<lambda>self.
        case sum_loop (iter_next self) (iter_state self) 0 of
          None \<Rightarrow> None
        | Some (r, s') \<Rightarrow> Some (Inr r, s'))"

text \<open>\<open>sort(key=None, reverse=False)\<close>: \<open>sorted(self)\<close> builds its list the way
  \<open>list(self)\<close> does and sorts it; the result is a new wrapper on the sorted
  list.\<close>

definition Iter_sort ::
  "bool \<Rightarrow> ('s, 'a::linorder) Iter \<Rightarrow> ((error + ('a list, 'a) Iter) \<times> 's) option" where
  "Iter_sort reverse = requires_finite None ''sort''
     (\<lambda>self.
        case list_of_Iter self of
          None \<Rightarrow> None
        | Some (Inl e, s') \<Rightarrow> Some (Inl e, s')
        | Some (Inr xs, s') \<Rightarrow>
            Some (Inr (Iter_of_list (if reverse then rev (sort xs) else sort xs)), s'))"

text \<open>\<open>collect\<close> is \<open>list(self)\<close>.\<close>

definition Iter_collect :: "('s, 'a) Iter \<Rightarrow> ((error + 'a list) \<times> 's) option" where
  "Iter_collect = requires_finite None ''collect'' list_of_Iter"

subsection \<open>Preview\<close>

text \<open>\<open>str\<close> of an integer, and \<open>str.ljust(width)\<close>.\<close>

fun str_nat :: "nat \<Rightarrow> string" where
  "str_nat n =
     (if n < 10 then [''0123456789'' ! n]
      else str_nat (n div 10) @ [''0123456789'' ! (n mod 10)])"

definition str_int :: "int \<Rightarrow> string" where
  "str_int i = (if i < 0 then ''-'' @ str_nat (nat (- i)) else str_nat (nat i))"

definition ljust :: "string \<Rightarrow> nat \<Rightarrow> string" where
  "ljust s width = s @ replicate (width - length s) CHR '' ''"

text \<open>\<open>__str__\<close>; \<open>str_elem\<close> is \<open>str\<close> on the element type.\<close>

definition str_row :: "('a \<Rightarrow> string) \<Rightarrow> int \<times> 'a \<Rightarrow> string" where
  "str_row str_elem i = ljust (str_int (fst i)) 3 @ ''|  '' @ str_elem (snd i) @ [CHR 0x0A]"

partial_function (option) str_loop ::
  "('a \<Rightarrow> string) \<Rightarrow> ('s, 'a) next_fn \<Rightarrow> int \<times> 's \<Rightarrow> string \<Rightarrow> (string \<times> int \<times> 's) option" where
  "str_loop str_elem nx e text =
     (case enumerate_next nx e of
        None \<Rightarrow> None
      | Some r \<Rightarrow>
          (case fst r of
             None \<Rightarrow> Some (text, snd r)
           | Some i \<Rightarrow>
               if fst i \<ge> 10 then Some (text @ str_row str_elem i @ ''...'', snd r)
               else str_loop str_elem nx (snd r) (text @ str_row str_elem i)))"

definition Iter_str :: "('a \<Rightarrow> string) \<Rightarrow> ('s, 'a) Iter \<Rightarrow> (string \<times> 's) option" where
  "Iter_str str_elem self =
     (case str_loop str_elem (iter_next self) (iter_state (Iter_enumerate self 0)) [] of
        None \<Rightarrow> None
      | Some (text, e') \<Rightarrow> Some (text, snd e'))"

subsection \<open>Primes\<close>

text \<open>
  The generator of \<open>primes()\<close> is suspended before its first statement, at
  \<open>yield 2\<close>, or at \<open>yield candidate\<close> with the locals \<open>primes\<close> and
  \<open>candidate\<close>.
\<close>

datatype primes_state = PStart | PYieldedTwo | PYielded "int list" int

text \<open>The \<open>for p in primes\<close> loop; its value is \<open>is_prime\<close> after the loop.\<close>

fun trial_division :: "int list \<Rightarrow> int \<Rightarrow> bool" where
  "trial_division [] candidate = True"
| "trial_division (p # ps) candidate =
     (if p * p > candidate then True
      else if candidate mod p = 0 then False
      else trial_division ps candidate)"

text \<open>The \<open>while True\<close> loop, up to the next \<open>yield\<close>.\<close>

partial_function (option) primes_loop ::
  "int list \<Rightarrow> int \<Rightarrow> (int option \<times> primes_state) option" where
  "primes_loop primes candidate =
     (if trial_division primes candidate
      then Some (Some candidate, PYielded (primes @ [candidate]) candidate)
      else primes_loop primes (candidate + 2))"

fun primes_gen :: "(primes_state, int) next_fn" where
  "primes_gen PStart = Some (Some 2, PYieldedTwo)"
| "primes_gen PYieldedTwo = primes_loop [2] 3"
| "primes_gen (PYielded primes candidate) = primes_loop primes (candidate + 2)"

definition Iter_primes :: "(primes_state, int) Iter" where
  "Iter_primes = Iter_init primes_gen PStart True"

subsection \<open>Notions the properties are stated with\<close>

text \<open>The pairs that \<open>enumerate\<close> makes of a list of elements, from index \<open>k\<close>.\<close>

fun indexed :: "int \<Rightarrow> 'a list \<Rightarrow> (int \<times> 'a) list" where
  "indexed k [] = []"
| "indexed k (x # xs) = (k, x) # indexed (k + 1) xs"

text \<open>Primality of an integer.\<close>

definition is_prime :: "int \<Rightarrow> bool" where
  "is_prime n = (1 < n \<and> (\<forall>d \<in> {2..<n}. \<not> d dvd n))"

text \<open>What holds of the elements \<open>ps\<close> pulled so far and the state of the generator
  of \<open>primes()\<close>.\<close>

fun primes_inv :: "int list \<Rightarrow> primes_state \<Rightarrow> bool" where
  "primes_inv ps PStart = (ps = [])"
| "primes_inv ps PYieldedTwo = (ps = [2])"
| "primes_inv ps (PYielded primes candidate) =
     (primes = ps \<and> ps = filter is_prime [2..candidate] \<and>
      odd candidate \<and> 3 \<le> candidate \<and> is_prime candidate)"

section \<open>Flags of the single-source transformations\<close>

lemma infinite_flag_Iter_default [simp]: "infinite_flag (Iter_default nx s) = False"
  by (simp add: Iter_default_def Iter_init_def)

lemma infinite_flag_Iter_init [simp]: "infinite_flag (Iter_init nx s b) = b"
  by (simp add: Iter_init_def)

lemma iter_next_Iter_init [simp]: "iter_next (Iter_init nx s b) = nx"
  by (simp add: Iter_init_def)

lemma iter_state_Iter_init [simp]: "iter_state (Iter_init nx s b) = s"
  by (simp add: Iter_init_def)

lemma iter_next_Iter_default [simp]: "iter_next (Iter_default nx s) = nx"
  by (simp add: Iter_default_def)

lemma iter_state_Iter_default [simp]: "iter_state (Iter_default nx s) = s"
  by (simp add: Iter_default_def)

text \<open>
  C1 (as stated, refuted): \<open>map\<close>, \<open>filter\<close>, \<open>filter_map\<close> and \<open>enumerate\<close>
  on \<open>count()\<close>, whose flag is set, each return a wrapper whose flag is not
  set, so the flag of the result differs from the flag of the wrapper it was
  built from.
\<close>

theorem C1_map_flag_counterexample:
  "infinite_flag (Iter_map (\<lambda>x. x + 1) (Iter_count 0 1)) \<noteq> infinite_flag (Iter_count 0 1) \<and>
   infinite_flag (Iter_filter (\<lambda>x. 0 \<le> x) (Iter_count 0 1)) \<noteq> infinite_flag (Iter_count 0 1) \<and>
   infinite_flag (Iter_filter_map Some (Iter_count 0 1)) \<noteq> infinite_flag (Iter_count 0 1) \<and>
   infinite_flag (Iter_enumerate (Iter_count 0 1) 0) \<noteq> infinite_flag (Iter_count 0 1)"
  by (simp add: Iter_map_def Iter_filter_def Iter_filter_map_def Iter_enumerate_def
      Iter_count_def)

text \<open>
  C1 (amended): \<open>map\<close>, \<open>filter\<close>, \<open>filter_map\<close> and \<open>enumerate\<close> each return
  a new wrapper built with the default flag: the flag of the result is false
  whatever the flag of the wrapper they were called on.
\<close>

theorem C1_single_source_flag_default:
  "infinite_flag (Iter_map func w) = False \<and>
   infinite_flag (Iter_filter predicate w) = False \<and>
   infinite_flag (Iter_filter_map fm w) = False \<and>
   infinite_flag (Iter_enumerate w start) = False"
  by (simp add: Iter_map_def Iter_filter_def Iter_filter_map_def Iter_enumerate_def)

section \<open>Pulling and draining\<close>

lemma next_cases [case_names Diverges Stop Item]:
  fixes nx :: "('s, 'a) next_fn"
  obtains "nx s = None"
  | s1 where "nx s = Some (None, s1)"
  | x s1 where "nx s = Some (Some x, s1)"
proof (cases "nx s")
  case None
  then show ?thesis using that(1) by simp
next
  case (Some r)
  then show ?thesis using that(2,3) by (cases r; cases "fst r") auto
qed

lemma pulls_Suc_Item:
  "nx s = Some (Some x, s1) \<Longrightarrow>
   pulls nx s (Suc n) = map_option (\<lambda>(xs, s'). (x # xs, s')) (pulls nx s1 n)"
  by (simp split: option.splits)

lemma pulls_length_le: "pulls nx s n = Some (xs, s') \<Longrightarrow> length xs \<le> n"
  by (induction n arbitrary: s xs) (auto split: option.splits prod.splits)

lemma pulls_Suc_take:
  "pulls nx s (Suc n) = Some (xs, s') \<Longrightarrow> \<exists>t. pulls nx s n = Some (take n xs, t)"
proof (induction n arbitrary: s xs)
  case 0
  then show ?case by simp
next
  case (Suc n)
  show ?case
  proof (cases s rule: next_cases [of nx])
    case Diverges
    with Suc.prems show ?thesis by simp
  next
    case (Stop s1)
    with Suc.prems show ?thesis by simp
  next
    case (Item x s1)
    with Suc.prems obtain xs1 where
      p: "pulls nx s1 (Suc n) = Some (xs1, s')" and xs: "xs = x # xs1"
      by (auto split: option.splits)
    from Suc.IH [OF p] obtain t where "pulls nx s1 n = Some (take n xs1, t)" by blast
    with Item xs show ?thesis by simp
  qed
qed

text \<open>One more pull after \<open>n\<close> successful ones.\<close>

lemma pulls_Suc_snoc:
  "pulls nx s n = Some (xs, s') \<Longrightarrow> length xs = n \<Longrightarrow>
   pulls nx s (Suc n) =
     (case nx s' of
        None \<Rightarrow> None
      | Some (None, s'') \<Rightarrow> Some (xs, s'')
      | Some (Some y, s'') \<Rightarrow> Some (xs @ [y], s''))"
proof (induction n arbitrary: s xs)
  case 0
  then show ?case by (auto split: option.splits)
next
  case (Suc n)
  show ?case
  proof (cases s rule: next_cases [of nx])
    case Diverges
    with Suc.prems show ?thesis by simp
  next
    case (Stop s1)
    with Suc.prems show ?thesis by simp
  next
    case (Item x s1)
    with Suc.prems obtain xs1 where
      p: "pulls nx s1 n = Some (xs1, s')" and xs: "xs = x # xs1"
      by (auto split: option.splits)
    from Suc.prems xs have "length xs1 = n" by simp
    from Suc.IH [OF p this]
    have "pulls nx s1 (Suc n) =
      (case nx s' of None \<Rightarrow> None | Some (None, s'') \<Rightarrow> Some (xs1, s'')
       | Some (Some y, s'') \<Rightarrow> Some (xs1 @ [y], s''))" .
    then have "pulls nx s (Suc (Suc n)) =
      (case nx s' of None \<Rightarrow> None | Some (None, s'') \<Rightarrow> Some (x # xs1, s'')
       | Some (Some y, s'') \<Rightarrow> Some (x # xs1 @ [y], s''))"
      unfolding pulls_Suc_Item [of nx s x s1 "Suc n", OF Item]
      by (simp split: option.splits)
    then show ?thesis unfolding xs by (auto split: option.splits)
  qed
qed

lemma list_loop_pulls:
  "pulls nx s n = Some (xs, s') \<Longrightarrow> length xs < n \<Longrightarrow>
   list_loop nx s acc = Some (acc @ xs, s')"
proof (induction n arbitrary: s xs acc)
  case 0
  then show ?case by simp
next
  case (Suc n)
  show ?case
  proof (cases s rule: next_cases [of nx])
    case Diverges
    with Suc.prems show ?thesis by simp
  next
    case (Stop s1)
    with Suc.prems show ?thesis by (subst list_loop.simps) simp
  next
    case (Item x s1)
    with Suc.prems obtain xs1 where
      p: "pulls nx s1 n = Some (xs1, s')" and xs: "xs = x # xs1"
      by (auto split: option.splits)
    from Suc.prems xs have "length xs1 < n" by simp
    from Suc.IH [OF p this]
    have "list_loop nx s1 (acc @ [x]) = Some ((acc @ [x]) @ xs1, s')" .
    with Item xs show ?thesis by (subst list_loop.simps) simp
  qed
qed

text \<open>The generator of \<open>take\<close>, drained from index \<open>k\<close> with \<open>m\<close> items to go.\<close>

lemma take_gen_drain:
  "m = nat (items - k) \<Longrightarrow> pulls nx s (Suc m) = Some (xs, s') \<Longrightarrow>
   list_loop (take_gen items nx) (False, k, s) acc =
     Some (acc @ take m xs, (True, k + int (length xs), s'))"
proof (induction m arbitrary: k s xs acc)
  case 0
  then have k: "items \<le> k" by simp
  show ?case
  proof (cases s rule: next_cases [of nx])
    case Diverges
    with "0.prems" show ?thesis by simp
  next
    case (Stop s1)
    with "0.prems" show ?thesis
      by (subst list_loop.simps) (simp add: take_gen_def enumerate_next_def)
  next
    case (Item x s1)
    with "0.prems" k show ?thesis
      by (subst list_loop.simps) (auto simp add: take_gen_def enumerate_next_def)
  qed
next
  case (Suc m)
  then have k: "k < items" and m: "m = nat (items - (k + 1))" by auto
  show ?case
  proof (cases s rule: next_cases [of nx])
    case Diverges
    with Suc.prems show ?thesis by simp
  next
    case (Stop s1)
    with Suc.prems show ?thesis
      by (subst list_loop.simps) (simp add: take_gen_def enumerate_next_def)
  next
    case (Item x s1)
    with Suc.prems obtain xs1 where
      p: "pulls nx s1 (Suc m) = Some (xs1, s')" and xs: "xs = x # xs1"
      by (auto split: option.splits)
    from Suc.IH [OF m p]
    have "list_loop (take_gen items nx) (False, k + 1, s1) (acc @ [x]) =
       Some ((acc @ [x]) @ take m xs1, True, k + 1 + int (length xs1), s')" .
    with Item xs k show ?thesis
      by (subst list_loop.simps) (simp add: take_gen_def enumerate_next_def)
  qed
qed

lemma count_pulls: "pulls (count_next step) start n =
  Some (map (\<lambda>i. start + int i * step) [0..<n], start + int n * step)"
proof (induction n arbitrary: start)
  case 0
  show ?case by simp
next
  case (Suc n)
  have "map (\<lambda>i. start + int i * step) [0..<Suc n] =
      start # map (\<lambda>i. start + step + int i * step) [0..<n]"
    by (simp only: upt_conv_Cons [of 0 "Suc n"] map_Suc_upt [symmetric])
       (simp add: algebra_simps)
  with Suc [of "start + step"] show ?case
    by (simp add: count_next_def algebra_simps del: upt_Suc)
qed

lemma take_gen_pulls:
  "m = nat (items - k) \<Longrightarrow> pulls nx s (Suc m) = Some (xs, s') \<Longrightarrow>
   pulls (take_gen items nx) (False, k, s) (Suc m) =
     Some (take m xs, (True, k + int (length xs), s'))"
proof (induction m arbitrary: k s xs)
  case 0
  then have k: "items \<le> k" by simp
  show ?case
  proof (cases s rule: next_cases [of nx])
    case Diverges
    with "0.prems" show ?thesis by simp
  next
    case (Stop s1)
    with "0.prems" show ?thesis
      by (simp add: take_gen_def enumerate_next_def)
  next
    case (Item x s1)
    with "0.prems" k show ?thesis
      by (auto simp add: take_gen_def enumerate_next_def)
  qed
next
  case (Suc m)
  then have k: "k < items" and m: "m = nat (items - (k + 1))" by auto
  show ?case
  proof (cases s rule: next_cases [of nx])
    case Diverges
    with Suc.prems show ?thesis by simp
  next
    case (Stop s1)
    with Suc.prems show ?thesis
      by (simp add: take_gen_def enumerate_next_def)
  next
    case (Item x s1)
    with Suc.prems obtain xs1 where
      p: "pulls nx s1 (Suc m) = Some (xs1, s')" and xs: "xs = x # xs1"
      by (auto split: option.splits)
    have step: "take_gen items nx (False, k, s) = Some (Some x, (False, k + 1, s1))"
      using Item k by (simp add: take_gen_def enumerate_next_def)
    from Suc.IH [OF m p]
    have "pulls (take_gen items nx) (False, k + 1, s1) (Suc m) =
       Some (take m xs1, True, k + 1 + int (length xs1), s')" .
    with step have "pulls (take_gen items nx) (False, k, s) (Suc (Suc m)) =
       Some (x # take m xs1, True, k + 1 + int (length xs1), s')"
      by (simp del: pulls.simps add: pulls_Suc_Item)
    then show ?thesis unfolding xs by simp
  qed
qed

lemma Iter_take_pulls:
  assumes "Iter_pulls S (Suc n) = Some (xs, s')"
  shows "Iter_pulls (Iter_take S (int n)) (Suc n) =
    Some (take n xs, (True, int (length xs), s'))"
proof -
  from assms have "pulls (iter_next S) (iter_state S) (Suc n) = Some (xs, s')"
    by (simp add: Iter_pulls_def)
  from take_gen_pulls [OF _ this, of "int n" 0]
  show ?thesis
    by (simp add: Iter_pulls_def Iter_take_def Iter_enumerate_def del: pulls.simps)
qed

lemma Iter_take_drain:
  assumes "Iter_pulls S (Suc n) = Some (xs, s')"
  shows "list_loop (iter_next (Iter_take S (int n))) (iter_state (Iter_take S (int n))) [] =
    Some (take n xs, (True, int (length xs), s'))"
proof -
  from assms have "pulls (iter_next S) (iter_state S) (Suc n) = Some (xs, s')"
    by (simp add: Iter_pulls_def)
  from take_gen_drain [OF _ this, of "int n" 0 "[]"]
  show ?thesis
    by (simp add: Iter_take_def Iter_enumerate_def)
qed

section \<open>Length\<close>

lemma len_loop_pulls:
  "pulls nx s n = Some (xs, s') \<Longrightarrow> length xs < n \<Longrightarrow>
   len_loop nx (k, s) t =
     Some (if xs = [] then t else k + int (length xs) - 1, (k + int (length xs), s'))"
proof (induction n arbitrary: s xs k t)
  case 0
  then show ?case by simp
next
  case (Suc n)
  show ?case
  proof (cases s rule: next_cases [of nx])
    case Diverges
    with Suc.prems show ?thesis by simp
  next
    case (Stop s1)
    with Suc.prems show ?thesis
      by (subst len_loop.simps) (simp add: enumerate_next_def)
  next
    case (Item x s1)
    with Suc.prems obtain xs1 where
      p: "pulls nx s1 n = Some (xs1, s')" and xs: "xs = x # xs1"
      by (auto split: option.splits)
    from Suc.prems xs have "length xs1 < n" by simp
    from Suc.IH [OF p this, of "k + 1" k]
    have "len_loop nx (k + 1, s1) k =
      Some (if xs1 = [] then k else k + 1 + int (length xs1) - 1, k + 1 + int (length xs1), s')" .
    with Item xs show ?thesis
      by (subst len_loop.simps) (simp add: enumerate_next_def)
  qed
qed

lemma Iter_len_bounded:
  assumes "\<not> infinite_flag w" and "Iter_pulls w n = Some (xs, s')" and "length xs < n"
  shows "Iter_len w = Some (if xs = [] then 0 else int (length xs) - 1, s')"
  using len_loop_pulls [of "iter_next w" "iter_state w" n xs s' 0 0] assms
  by (simp add: Iter_len_def Iter_pulls_def Iter_enumerate_def)

lemma Iter_len_unbounded: "infinite_flag w \<Longrightarrow> Iter_len w = Some (- 1, iter_state w)"
  by (simp add: Iter_len_def)

text \<open>
  C4 (the code at a failing input): on a bounded wrapper of the three-element
  list \<open>[a, b, c]\<close>, from which pulling gives three elements, \<open>len()\<close>
  returns 2, the index of the last element.
\<close>

theorem C4_len_returns_last_index:
  "Iter_len (Iter_of_list [a, b, c]) = Some (2, []) \<and>
   Iter_pulls (Iter_of_list [a, b, c]) 4 = Some ([a, b, c], [])"
  using Iter_len_bounded [of "Iter_of_list [a, b, c]" 4 "[a, b, c]" "[]"]
  by (simp add: Iter_of_list_def Iter_pulls_def eval_nat_numeral)

section \<open>collect\<close>

text \<open>\<open>list(self)\<close> on a bounded wrapper that runs out: the size hint has used
  the elements up, and the list is filled with what the iterator still gives.\<close>

lemma list_of_Iter_bounded:
  assumes "\<not> infinite_flag w" and "Iter_pulls w n = Some (xs, s1)" and "length xs < n"
  shows "list_of_Iter w =
    (case list_loop (iter_next w) s1 [] of
       None \<Rightarrow> None
     | Some (ys, s2) \<Rightarrow> Some (Inr ys, s2))"
  using Iter_len_bounded [OF assms]
  by (simp add: list_of_Iter_def)

lemma Iter_collect_spent:
  assumes "\<not> infinite_flag w" and "Iter_pulls w n = Some (xs, s1)" and "length xs < n"
    and "iter_next w s1 = Some (None, s2)"
  shows "Iter_collect w = Some (Inr [], s2)"
proof -
  from assms(4) have "list_loop (iter_next w) s1 [] = Some ([], s2)"
    by (subst list_loop.simps) simp
  with list_of_Iter_bounded [OF assms(1-3)] assms(1) show ?thesis
    by (simp add: Iter_collect_def requires_finite_def)
qed

lemma Iter_take_collect_empty:
  assumes "Iter_pulls S (Suc n) = Some (xs, s')"
  shows "Iter_collect (Iter_take S (int n)) = Some (Inr [], (True, int (length xs), s'))"
proof (rule Iter_collect_spent)
  show "\<not> infinite_flag (Iter_take S (int n))" by (simp add: Iter_take_def)
  show "Iter_pulls (Iter_take S (int n)) (Suc n) =
      Some (take n xs, (True, int (length xs), s'))"
    using assms by (rule Iter_take_pulls)
  show "length (take n xs) < Suc n" by simp
  show "iter_next (Iter_take S (int n)) (True, int (length xs), s') =
      Some (None, (True, int (length xs), s'))"
    by (simp add: Iter_take_def take_gen_def)
qed

section \<open>take\<close>

text \<open>
  What holds of \<open>take\<close>: when the first \<open>n + 1\<close> pulls of \<open>S\<close> return (giving
  \<open>xs\<close>, shorter than \<open>n + 1\<close> exactly when \<open>S\<close> runs out), \<open>S.take(n)\<close> has its
  flag cleared and yields, pull by pull, the first \<open>min n (length xs)\<close>
  elements of \<open>S\<close>, which are the elements that \<open>n\<close> pulls of \<open>S\<close> give.
\<close>

lemma Iter_take_prefix:
  assumes "Iter_pulls S (Suc n) = Some (xs, s')"
  shows "infinite_flag (Iter_take S (int n)) = False \<and>
    (\<exists>g. Iter_pulls (Iter_take S (int n)) (Suc n) = Some (take n xs, g)) \<and>
    (\<exists>t. Iter_pulls S n = Some (take n xs, t)) \<and>
    length (take n xs) = min n (length xs)"
proof -
  have "infinite_flag (Iter_take S (int n)) = False"
    by (simp add: Iter_take_def)
  moreover have "\<exists>g. Iter_pulls (Iter_take S (int n)) (Suc n) = Some (take n xs, g)"
    using Iter_take_pulls [OF assms] by blast
  moreover have "\<exists>t. Iter_pulls S n = Some (take n xs, t)"
    using assms pulls_Suc_take [of "iter_next S" "iter_state S" n xs s']
    by (simp add: Iter_pulls_def)
  ultimately show ?thesis by simp
qed

text \<open>
  C7 (the code at a failing input): \<open>count().take(3)\<close> has its flag cleared
  and yields \<open>[0, 1, 2]\<close> when pulled, the three elements that three pulls of
  \<open>count()\<close> give, but \<open>count().take(3).collect()\<close> returns the empty list:
  the size hint that \<open>list(self)\<close> asks for runs \<open>__len__\<close>, which uses the
  elements up before the list is filled.
\<close>

theorem C7_take_collect_empty:
  "infinite_flag (Iter_count 0 1) \<and>
   infinite_flag (Iter_take (Iter_count 0 1) 3) = False \<and>
   Iter_pulls (Iter_count 0 1) 3 = Some ([0, 1, 2], 3) \<and>
   Iter_pulls (Iter_take (Iter_count 0 1) 3) 4 = Some ([0, 1, 2], (True, 4, 4)) \<and>
   Iter_collect (Iter_take (Iter_count 0 1) 3) = Some (Inr [], (True, 4, 4))"
proof -
  have h: "Iter_pulls (Iter_count 0 1) (Suc 3) = Some ([0, 1, 2, 3], 4)"
    by (simp add: Iter_pulls_def Iter_count_def count_next_def eval_nat_numeral)
  have p: "Iter_pulls (Iter_count 0 1) 3 = Some ([0, 1, 2], 3)"
    by (simp add: Iter_pulls_def Iter_count_def count_next_def eval_nat_numeral)
  have "Suc 3 = 4" by simp
  with Iter_take_pulls [OF h] Iter_take_collect_empty [OF h] p show ?thesis
    by (simp add: Iter_count_def Iter_take_def del: pulls.simps)
qed

text \<open>
  C10: when the source of \<open>S\<close> holds more than \<open>n\<close> elements (its first
  \<open>n + 1\<close> pulls return \<open>n + 1\<close> elements \<open>xs\<close> and leave it at \<open>s'\<close>), draining
  \<open>S.take(n)\<close>, by \<open>n + 1\<close> calls of \<open>next\<close> or by a loop that pulls until
  exhaustion, gives the first \<open>n\<close> of them and leaves the shared producer at
  \<open>s'\<close>, the state after \<open>n + 1\<close> pulls, with the index of \<open>enumerate\<close> at
  \<open>n + 1\<close>: the element at index \<open>n\<close> was pulled and dropped, and the next
  pull from the producer returns the element at index \<open>n + 1\<close> of \<open>S\<close>.
\<close>

theorem C10_take_pulls_one_more:
  assumes "Iter_pulls S (Suc n) = Some (xs, s')" and "length xs = Suc n"
  shows "Iter_pulls (Iter_take S (int n)) (Suc n) =
      Some (butlast xs, (True, int n + 1, s')) \<and>
    list_loop (iter_next (Iter_take S (int n))) (iter_state (Iter_take S (int n))) [] =
      Some (butlast xs, (True, int n + 1, s')) \<and>
    Iter_pulls S (Suc (Suc n)) =
      (case iter_next S s' of
         None \<Rightarrow> None
       | Some (None, s'') \<Rightarrow> Some (xs, s'')
       | Some (Some y, s'') \<Rightarrow> Some (xs @ [y], s''))"
proof -
  from assms(2) have b: "take n xs = butlast xs"
    by (simp add: butlast_conv_take)
  from Iter_take_pulls [OF assms(1)] assms(2) b
  have "Iter_pulls (Iter_take S (int n)) (Suc n) =
      Some (butlast xs, (True, int n + 1, s'))"
    by simp
  moreover from Iter_take_drain [OF assms(1)] assms(2) b
  have "list_loop (iter_next (Iter_take S (int n))) (iter_state (Iter_take S (int n))) [] =
      Some (butlast xs, (True, int n + 1, s'))"
    by simp
  moreover from assms have "Iter_pulls S (Suc (Suc n)) =
      (case iter_next S s' of
         None \<Rightarrow> None
       | Some (None, s'') \<Rightarrow> Some (xs, s'')
       | Some (Some y, s'') \<Rightarrow> Some (xs @ [y], s''))"
    unfolding Iter_pulls_def by (rule pulls_Suc_snoc)
  ultimately show ?thesis by simp
qed

text \<open>Witness for C10: \<open>count().take(2)\<close>.\<close>

theorem C10_take_pulls_one_more_witness:
  "Iter_pulls (Iter_count 0 1) (Suc 2) = Some ([0, 1, 2], 3) \<and>
   length [0, 1, 2 :: int] = Suc 2 \<and>
   Iter_pulls (Iter_take (Iter_count 0 1) (int 2)) (Suc 2) = Some ([0, 1], (True, 3, 3)) \<and>
   list_loop (iter_next (Iter_take (Iter_count 0 1) (int 2)))
     (iter_state (Iter_take (Iter_count 0 1) (int 2))) [] = Some ([0, 1], (True, 3, 3)) \<and>
   iter_next (Iter_count 0 1) 3 = Some (Some 3, 4) \<and>
   Iter_pulls (Iter_count 0 1) (Suc (Suc 2)) = Some ([0, 1, 2, 3], 4)"
proof -
  have h: "Iter_pulls (Iter_count 0 1) (Suc 2) = Some ([0, 1, 2], 3)"
    by (simp add: Iter_pulls_def Iter_count_def count_next_def eval_nat_numeral)
  have l: "length [0, 1, 2 :: int] = Suc 2" by simp
  have n: "iter_next (Iter_count 0 1) 3 = Some (Some 3, 4)"
    by (simp add: Iter_count_def count_next_def)
  from C10_take_pulls_one_more [OF h l] h n show ?thesis
    by (simp del: pulls.simps)
qed

section \<open>Pairing and chaining, step by step\<close>

lemma zip_pulls:
  "pulls nx s n = Some (xs, s') \<Longrightarrow>
   pulls (iter_next b) (iter_state b) n = Some (ys, t') \<Longrightarrow>
   \<exists>z. pulls (zip_next nx) (s, [b]) n = Some (map (\<lambda>(x, y). [x, y]) (zip xs ys), z)"
proof (induction n arbitrary: s b xs ys)
  case 0
  then show ?case by simp
next
  case (Suc n)
  show ?case
  proof (cases s rule: next_cases [of nx])
    case Diverges
    with Suc.prems show ?thesis by simp
  next
    case (Stop s1)
    with Suc.prems show ?thesis by (simp add: zip_next_def)
  next
    case (Item x s1)
    with Suc.prems obtain xs1 where
      p: "pulls nx s1 n = Some (xs1, s')" and xs: "xs = x # xs1"
      by (auto split: option.splits)
    show ?thesis
    proof (cases "iter_state b" rule: next_cases [of "iter_next b"])
      case Diverges
      with Suc.prems show ?thesis by simp
    next
      case (Stop t1)
      with Suc.prems Item show ?thesis by (simp add: zip_next_def)
    next
      case (Item y t1)
      with Suc.prems obtain ys1 where
        q: "pulls (iter_next b) t1 n = Some (ys1, t')" and ys: "ys = y # ys1"
        by (auto split: option.splits)
      from q have "pulls (iter_next (b\<lparr>iter_state := t1\<rparr>)) (iter_state (b\<lparr>iter_state := t1\<rparr>)) n
          = Some (ys1, t')" by simp
      from Suc.IH [OF p this] obtain z where
        "pulls (zip_next nx) (s1, [b\<lparr>iter_state := t1\<rparr>]) n =
           Some (map (\<lambda>(x, y). [x, y]) (zip xs1 ys1), z)" by blast
      moreover have "zip_next nx (s, [b]) = Some (Some [x, y], (s1, [b\<lparr>iter_state := t1\<rparr>]))"
        using \<open>nx s = Some (Some x, s1)\<close> Item by (simp add: zip_next_def)
      ultimately have "pulls (zip_next nx) (s, [b]) (Suc n) =
          Some (map (\<lambda>(x, y). [x, y]) (zip xs ys), z)"
        unfolding xs ys by (simp del: pulls.simps add: pulls_Suc_Item)
      then show ?thesis by blast
    qed
  qed
qed

lemma chain_others_pulls:
  "pulls (iter_next b) (iter_state b) n = Some (ys, t') \<Longrightarrow>
   \<exists>z. pulls (chain_gen nx) (InOthers, s, [], [b]) n = Some (ys, z)"
proof (induction n arbitrary: b ys)
  case 0
  then show ?case by simp
next
  case (Suc n)
  show ?case
  proof (cases "iter_state b" rule: next_cases [of "iter_next b"])
    case Diverges
    with Suc.prems show ?thesis by simp
  next
    case (Stop t1)
    with Suc.prems show ?thesis by (simp add: chain_others_def)
  next
    case (Item y t1)
    with Suc.prems obtain ys1 where
      q: "pulls (iter_next b) t1 n = Some (ys1, t')" and ys: "ys = y # ys1"
      by (auto split: option.splits)
    from q have "pulls (iter_next (b\<lparr>iter_state := t1\<rparr>)) (iter_state (b\<lparr>iter_state := t1\<rparr>)) n
        = Some (ys1, t')" by simp
    from Suc.IH [OF this] obtain z where
      "pulls (chain_gen nx) (InOthers, s, [], [b\<lparr>iter_state := t1\<rparr>]) n = Some (ys1, z)"
      by blast
    moreover have "chain_gen nx (InOthers, s, [], [b]) =
        Some (Some y, (InOthers, s, [], [b\<lparr>iter_state := t1\<rparr>]))"
      using Item by (simp add: chain_others_def)
    ultimately have "pulls (chain_gen nx) (InOthers, s, [], [b]) (Suc n) = Some (ys, z)"
      unfolding ys by (simp del: pulls.simps add: pulls_Suc_Item)
    then show ?thesis by blast
  qed
qed

lemma chain_self_pulls:
  "pulls nx s m = Some (xs, s1) \<Longrightarrow> length xs < m \<Longrightarrow>
   pulls (iter_next b) (iter_state b) n = Some (ys, t') \<Longrightarrow>
   \<exists>z. pulls (chain_gen nx) (InSelf, s, [], [b]) (length xs + n) = Some (xs @ ys, z)"
proof (induction m arbitrary: s xs)
  case 0
  then show ?case by simp
next
  case (Suc m)
  show ?case
  proof (cases s rule: next_cases [of nx])
    case Diverges
    with Suc.prems show ?thesis by simp
  next
    case (Stop s2)
    with Suc.prems have xs: "xs = []" by simp
    from chain_others_pulls [OF Suc.prems(3), of nx s2] obtain z where
      z: "pulls (chain_gen nx) (InOthers, s2, [], [b]) n = Some (ys, z)" by blast
    show ?thesis
    proof (cases n)
      case 0
      with Suc.prems xs show ?thesis by simp
    next
      case (Suc n')
      have "chain_gen nx (InSelf, s, [], [b]) = chain_gen nx (InOthers, s2, [], [b])"
        using Stop by simp
      then have "pulls (chain_gen nx) (InSelf, s, [], [b]) (Suc n') =
          pulls (chain_gen nx) (InOthers, s2, [], [b]) (Suc n')"
        by (simp del: chain_gen.simps)
      with z Suc xs have "pulls (chain_gen nx) (InSelf, s, [], [b]) (length xs + n) =
          Some (xs @ ys, z)"
        by (simp del: pulls.simps)
      then show ?thesis by blast
    qed
  next
    case (Item x s2)
    with Suc.prems obtain xs1 where
      p: "pulls nx s2 m = Some (xs1, s1)" and xs: "xs = x # xs1"
      by (auto split: option.splits)
    from Suc.prems xs have "length xs1 < m" by simp
    from Suc.IH [OF p this Suc.prems(3)] obtain z where
      "pulls (chain_gen nx) (InSelf, s2, [], [b]) (length xs1 + n) = Some (xs1 @ ys, z)"
      by blast
    moreover have "chain_gen nx (InSelf, s, [], [b]) = Some (Some x, (InSelf, s2, [], [b]))"
      using Item by simp
    ultimately have "pulls (chain_gen nx) (InSelf, s, [], [b]) (Suc (length xs1 + n)) =
        Some (xs @ ys, z)"
      unfolding xs by (simp del: pulls.simps chain_gen.simps add: pulls_Suc_Item)
    moreover have "length xs + n = Suc (length xs1 + n)"
      using xs by simp
    ultimately show ?thesis by metis
  qed
qed

section \<open>repeat\<close>

lemma repeat_forever_pulls: "pulls (repeat_next v) None n = Some (replicate n v, None)"
  by (induction n) simp_all

lemma repeat_times_pulls:
  "pulls (repeat_next v) (Some (int k)) (Suc k) = Some (replicate k v, Some 0)"
proof (induction k)
  case 0
  show ?case by simp
next
  case (Suc k)
  have "repeat_next v (Some (int (Suc k))) = Some (Some v, Some (int k))"
    by simp
  then have "pulls (repeat_next v) (Some (int (Suc k))) (Suc (Suc k)) =
      map_option (\<lambda>(xs, s'). (v # xs, s')) (pulls (repeat_next v) (Some (int k)) (Suc k))"
    by (rule pulls_Suc_Item)
  with Suc show ?case by simp
qed

lemma Iter_repeat_times:
  assumes "0 < t"
  shows "infinite_flag (Iter_repeat v (Some t)) = False \<and>
    Iter_pulls (Iter_repeat v (Some t)) (Suc (nat t)) = Some (replicate (nat t) v, Some 0)"
proof -
  from assms have t: "t = int (nat t)" by simp
  from repeat_times_pulls [of v "nat t"] t
  have "pulls (repeat_next v) (Some t) (Suc (nat t)) = Some (replicate (nat t) v, Some 0)"
    by simp
  with assms show ?thesis
    by (simp add: Iter_repeat_def Iter_pulls_def del: pulls.simps)
qed

lemma Iter_repeat_forever:
  "infinite_flag (Iter_repeat v None) = True \<and>
   Iter_pulls (Iter_repeat v None) n = Some (replicate n v, None)"
  by (simp add: Iter_repeat_def Iter_pulls_def repeat_forever_pulls)

text \<open>
  C5 (the code at a failing input): \<open>repeat(v, 0)\<close> returns a wrapper flagged
  unbounded that yields \<open>v\<close> on every pull.
\<close>

theorem C5_repeat_zero_unbounded:
  "infinite_flag (Iter_repeat v (Some 0)) = True \<and>
   Iter_pulls (Iter_repeat v (Some 0)) 3 = Some ([v, v, v], None)"
  by (simp add: Iter_repeat_def Iter_pulls_def eval_nat_numeral)

section \<open>The guard of the finite-only operations\<close>

text \<open>
  C6: on a wrapper whose flag is set, \<open>sum()\<close>, \<open>sort()\<close> and \<open>collect()\<close>
  each raise \<open>InfiniteIteratorError\<close> and leave the producer in the state it
  was in, whatever the producer would do when pulled; the message names the
  operation and says to use \<open>take(n)\<close> first.
\<close>

theorem C6_finite_only_guard:
  fixes w :: "('s, 'a::{monoid_add,linorder}) Iter"
  assumes "infinite_flag w"
  shows "Iter_sum w = Some (Inl (InfiniteIteratorError
       (''Cannot call sum() on infinite iterator'' @ [CHR 0x0A] @
        ''Use .take(n).sum() first to limit the iterator'')), iter_state w) \<and>
    Iter_sort reverse w = Some (Inl (InfiniteIteratorError
       (''Cannot call sort() on infinite iterator'' @ [CHR 0x0A] @
        ''Use .take(n).sort() first to limit the iterator'')), iter_state w) \<and>
    Iter_collect w = Some (Inl (InfiniteIteratorError
       (''Cannot call collect() on infinite iterator'' @ [CHR 0x0A] @
        ''Use .take(n).collect() first to limit the iterator'')), iter_state w)"
  using assms
  by (simp add: Iter_sum_def Iter_sort_def Iter_collect_def requires_finite_def)

text \<open>Witness for C6: a producer whose \<open>next\<close> never returns.\<close>

theorem C6_finite_only_guard_witness:
  "infinite_flag (Iter_init (\<lambda>s. None) () True :: (unit, int) Iter) \<and>
   Iter_sum (Iter_init (\<lambda>s. None) () True :: (unit, int) Iter) =
     Some (Inl (InfiniteIteratorError
       (''Cannot call sum() on infinite iterator'' @ [CHR 0x0A] @
        ''Use .take(n).sum() first to limit the iterator'')), ()) \<and>
   Iter_sort False (Iter_init (\<lambda>s. None) () True :: (unit, int) Iter) =
     Some (Inl (InfiniteIteratorError
       (''Cannot call sort() on infinite iterator'' @ [CHR 0x0A] @
        ''Use .take(n).sort() first to limit the iterator'')), ()) \<and>
   Iter_collect (Iter_init (\<lambda>s. None) () True :: (unit, int) Iter) =
     Some (Inl (InfiniteIteratorError
       (''Cannot call collect() on infinite iterator'' @ [CHR 0x0A] @
        ''Use .take(n).collect() first to limit the iterator'')), ())"
proof -
  have h: "infinite_flag (Iter_init (\<lambda>s. None) () True :: (unit, int) Iter)" by simp
  from C6_finite_only_guard [OF h, of False] h show ?thesis by simp
qed

section \<open>zip\<close>

text \<open>
  C2 (as stated, refuted): \<open>count().zip(count())\<close> has both operands flagged
  unbounded, and the flag of the result is not set.
\<close>

theorem C2_zip_flag_counterexample:
  "\<not> (infinite_flag (Iter_zip (Iter_count 0 1) [Iter_count 0 1]) \<longleftrightarrow>
      infinite_flag (Iter_count 0 1) \<and> infinite_flag (Iter_count 0 1))"
  by (simp add: Iter_zip_def Iter_count_def)

text \<open>
  C2 (amended): \<open>a.zip(b)\<close> pairs the elements positionally and stops at the
  shortest source: when \<open>n\<close> pulls of \<open>a\<close> give \<open>xs\<close> and \<open>n\<close> pulls of \<open>b\<close>
  give \<open>ys\<close>, \<open>n\<close> pulls of \<open>a.zip(b)\<close> give the pairs of \<open>zip xs ys\<close>. The
  result of \<open>zip\<close> is built with the default flag: its flag is false whatever
  the flags of the operands.
\<close>

theorem C2_zip_pairs_flag_default:
  assumes "Iter_pulls a n = Some (xs, sa)" and "Iter_pulls b n = Some (ys, sb)"
  shows "(\<exists>z. Iter_pulls (Iter_zip a [b]) n = Some (map (\<lambda>(x, y). [x, y]) (zip xs ys), z)) \<and>
    infinite_flag (Iter_zip a bs) = False"
proof -
  from assms have "\<exists>z. pulls (zip_next (iter_next a)) (iter_state a, [b]) n =
      Some (map (\<lambda>(x, y). [x, y]) (zip xs ys), z)"
    unfolding Iter_pulls_def by (rule zip_pulls)
  then show ?thesis by (simp add: Iter_pulls_def Iter_zip_def)
qed

text \<open>Witness for C2: \<open>count().zip(range(5))\<close> yields five pairs and is flagged
  bounded; \<open>count().zip(count())\<close> is flagged bounded too.\<close>

theorem C2_zip_pairs_flag_default_witness:
  "Iter_pulls (Iter_count 0 1) 6 = Some ([0, 1, 2, 3, 4, 5], 6) \<and>
   Iter_pulls (Iter_default range_next (0, 5, 1)) 6 = Some ([0, 1, 2, 3, 4], (5, 5, 1)) \<and>
   (\<exists>z. Iter_pulls (Iter_zip (Iter_count 0 1) [Iter_default range_next (0, 5, 1)]) 6 =
      Some ([[0, 0], [1, 1], [2, 2], [3, 3], [4, 4]], z)) \<and>
   Iter_range [5] = Inr (Iter_default range_next (0, 5, 1)) \<and>
   infinite_flag (Iter_zip (Iter_count 0 1) [Iter_default range_next (0, 5, 1)]) = False \<and>
   infinite_flag (Iter_zip (Iter_count 0 1) [Iter_count 0 1]) = False"
proof -
  have a: "Iter_pulls (Iter_count 0 1) 6 = Some ([0, 1, 2, 3, 4, 5], 6)"
    by (simp add: Iter_pulls_def Iter_count_def count_next_def eval_nat_numeral)
  have b: "Iter_pulls (Iter_default range_next (0, 5, 1)) 6 = Some ([0, 1, 2, 3, 4], (5, 5, 1))"
    by (simp add: Iter_pulls_def eval_nat_numeral)
  have r: "Iter_range [5] = Inr (Iter_default range_next (0, 5, 1))"
    by (simp add: Iter_range_def)
  from C2_zip_pairs_flag_default [OF a b, of "[Iter_default range_next (0, 5, 1)]"]
    C2_zip_pairs_flag_default [OF a a, of "[Iter_count 0 1]"] a b r
  show ?thesis by simp
qed

section \<open>chain\<close>

text \<open>
  C3 (as stated, refuted): in \<open>range(3).chain(count())\<close> the chained operand
  is flagged unbounded, and the flag of the result is not set.
\<close>

theorem C3_chain_flag_counterexample:
  "\<not> (infinite_flag (Iter_chain (Iter_default range_next (0, 3, 1)) [Iter_count 0 1]) \<longleftrightarrow>
      infinite_flag (Iter_default range_next (0, 3, 1)) \<or> infinite_flag (Iter_count 0 1))"
  by (simp add: Iter_chain_def Iter_count_def)

text \<open>The elements that \<open>range(3).chain(count()).take(5)\<close> yields when it is
  pulled until it is exhausted.\<close>

lemma chain_example:
  "(case Iter_range [3] of
      Inl e \<Rightarrow> False
    | Inr r \<Rightarrow>
        map_option fst (Iter_pulls (Iter_take (Iter_chain r [Iter_count 0 1]) 5) (Suc 5)) =
          Some [0, 1, 2, 0, 1])"
proof -
  have "Iter_pulls (Iter_chain (Iter_default range_next (0, 3, 1)) [Iter_count 0 1]) (Suc 5) =
    Some ([0, 1, 2, 0, 1, 2],
      (InOthers, (3, 3, 1), [], [(Iter_count 0 1)\<lparr>iter_state := 3\<rparr>]))"
    by (simp add: Iter_pulls_def Iter_chain_def Iter_count_def count_next_def chain_others_def
      eval_nat_numeral)
  from Iter_take_pulls [OF this] show ?thesis
    by (simp add: Iter_range_def del: pulls.simps)
qed

text \<open>
  C3 (amended): \<open>a.chain(b)\<close> yields the elements of \<open>a\<close> in order, then those
  of \<open>b\<close> in order: when \<open>a\<close> runs out after \<open>xs\<close> and \<open>n\<close> pulls of \<open>b\<close> give
  \<open>ys\<close>, \<open>length xs + n\<close> pulls of \<open>a.chain(b)\<close> give \<open>xs @ ys\<close>. The result of
  \<open>chain\<close> is built with the default flag: its flag is false whatever the
  flags of the operands. The elements that \<open>range(3).chain(count()).take(5)\<close>
  yields, pulled until it is exhausted, are \<open>[0, 1, 2, 0, 1]\<close>.
\<close>

theorem C3_chain_appends_flag_default:
  assumes "Iter_pulls a (Suc m) = Some (xs, sa)" and "length xs \<le> m"
    and "Iter_pulls b n = Some (ys, sb)"
  shows "(\<exists>z. Iter_pulls (Iter_chain a [b]) (length xs + n) = Some (xs @ ys, z)) \<and>
    infinite_flag (Iter_chain a bs) = False \<and>
    (case Iter_range [3] of
      Inl e \<Rightarrow> False
    | Inr r \<Rightarrow>
        map_option fst (Iter_pulls (Iter_take (Iter_chain r [Iter_count 0 1]) 5) (Suc 5)) =
          Some [0, 1, 2, 0, 1])"
proof -
  from assms(2) have "length xs < Suc m" by simp
  with assms(1,3) have "\<exists>z. pulls (chain_gen (iter_next a)) (InSelf, iter_state a, [], [b])
      (length xs + n) = Some (xs @ ys, z)"
    unfolding Iter_pulls_def by (intro chain_self_pulls)
  then have "\<exists>z. Iter_pulls (Iter_chain a [b]) (length xs + n) = Some (xs @ ys, z)"
    by (simp add: Iter_pulls_def Iter_chain_def)
  moreover have "infinite_flag (Iter_chain a bs) = False"
    by (simp add: Iter_chain_def)
  ultimately show ?thesis using chain_example by simp
qed

text \<open>Witness for C3: \<open>range(3)\<close> chained with \<open>count()\<close>.\<close>

theorem C3_chain_appends_flag_default_witness:
  "Iter_pulls (Iter_default range_next (0, 3, 1)) (Suc 3) = Some ([0, 1, 2], (3, 3, 1)) \<and>
   length [0, 1, 2 :: int] \<le> 3 \<and>
   Iter_pulls (Iter_count 0 1) 2 = Some ([0, 1], 2) \<and>
   (\<exists>z. Iter_pulls (Iter_chain (Iter_default range_next (0, 3, 1)) [Iter_count 0 1])
      (length [0, 1, 2 :: int] + 2) = Some ([0, 1, 2, 0, 1], z)) \<and>
   infinite_flag (Iter_chain (Iter_default range_next (0, 3, 1)) [Iter_count 0 1]) = False"
proof -
  have a: "Iter_pulls (Iter_default range_next (0, 3, 1)) (Suc 3) = Some ([0, 1, 2], (3, 3, 1))"
    by (simp add: Iter_pulls_def eval_nat_numeral)
  have l: "length [0, 1, 2 :: int] \<le> 3" by simp
  have b: "Iter_pulls (Iter_count 0 1) 2 = Some ([0, 1], 2)"
    by (simp add: Iter_pulls_def Iter_count_def count_next_def eval_nat_numeral)
  from C3_chain_appends_flag_default [OF a l b, of "[Iter_count 0 1]"] a b
  show ?thesis by simp
qed

section \<open>The preview\<close>

declare str_nat.simps [simp del]

lemma str_loop_pulls:
  "m \<le> 11 \<Longrightarrow> pulls nx s m = Some (xs, s') \<Longrightarrow> 0 < m \<Longrightarrow>
   str_loop str_elem nx (11 - int m, s) acc =
     Some (acc @ concat (map (str_row str_elem) (indexed (11 - int m) xs)) @
             (if length xs = m then ''...'' else []),
           (11 - int m + int (length xs), s'))"
proof (induction m arbitrary: s xs acc)
  case 0
  then show ?case by simp
next
  case (Suc m)
  have k: "11 - int (Suc m) = 10 - int m" by simp
  show ?case
  proof (cases s rule: next_cases [of nx])
    case Diverges
    with Suc.prems show ?thesis by simp
  next
    case (Stop s1)
    with Suc.prems show ?thesis
      by (subst str_loop.simps) (simp add: enumerate_next_def)
  next
    case (Item x s1)
    with Suc.prems obtain xs1 where
      p: "pulls nx s1 m = Some (xs1, s')" and xs: "xs = x # xs1"
      by (auto split: option.splits)
    show ?thesis
    proof (cases m)
      case 0
      with p have "xs1 = []" and "s' = s1" by simp_all
      with Item xs 0 show ?thesis
        by (subst str_loop.simps) (simp add: enumerate_next_def)
    next
      case (Suc m')
      with Suc.prems have m: "m \<le> 11" and pos: "0 < m" by simp_all
      have k1: "10 - int m + 1 = 11 - int m" by simp
      from Suc.IH [OF m p pos, of "acc @ str_row str_elem (10 - int m, x)"] Item xs pos
      show ?thesis unfolding k
        by (subst str_loop.simps) (simp add: enumerate_next_def k1)
    qed
  qed
qed

text \<open>
  C8 (amended): for every wrapper whose first 11 pulls return, flagged
  unbounded or not, \<open>__str__\<close> returns, has pulled exactly what those 11 pulls
  pull (it leaves the producer at \<open>s'\<close>), and renders the pairs of index and
  element of the at most 11 elements \<open>xs\<close> they gave; the ellipsis marker is
  appended if and only if 11 pairs are shown, whether or not more elements
  remain after them.
\<close>

theorem C8_preview_first_eleven:
  assumes "Iter_pulls w 11 = Some (xs, s')"
  shows "Iter_str str_elem w =
      Some (concat (map (str_row str_elem) (indexed 0 xs)) @
              (if length xs = 11 then ''...'' else []), s') \<and>
    length xs \<le> 11"
proof -
  from assms have p: "pulls (iter_next w) (iter_state w) 11 = Some (xs, s')"
    by (simp add: Iter_pulls_def)
  from str_loop_pulls [OF _ p, of str_elem "[]"] pulls_length_le [OF p]
  show ?thesis
    by (simp add: Iter_str_def Iter_enumerate_def)
qed

text \<open>
  C8 (as stated, refuted): the preview of a wrapper of exactly 11 elements
  ends with the ellipsis marker, and no element remains: the list iterator is
  left exhausted.
\<close>

theorem C8_eleven_elements_counterexample:
  "Iter_str str_int (Iter_of_list [0, 1, 2, 3, 4, 5, 6, 7, 8, 9, 10]) =
     Some (''0  |  0'' @ [CHR 0x0A] @ ''1  |  1'' @ [CHR 0x0A] @ ''2  |  2'' @ [CHR 0x0A] @
           ''3  |  3'' @ [CHR 0x0A] @ ''4  |  4'' @ [CHR 0x0A] @ ''5  |  5'' @ [CHR 0x0A] @
           ''6  |  6'' @ [CHR 0x0A] @ ''7  |  7'' @ [CHR 0x0A] @ ''8  |  8'' @ [CHR 0x0A] @
           ''9  |  9'' @ [CHR 0x0A] @ ''10 |  10'' @ [CHR 0x0A] @ ''...'', []) \<and>
   list_next ([] :: int list) = Some (None, [])"
  by (simp add: Iter_str_def Iter_of_list_def Iter_enumerate_def str_loop.simps
      enumerate_next_def str_row_def str_int_def ljust_def str_nat.simps numeral_2_eq_2)

text \<open>Witness for C8: the preview of \<open>count()\<close>, which never runs out.\<close>

theorem C8_preview_first_eleven_witness:
  "Iter_pulls (Iter_count 0 1) 11 = Some ([0, 1, 2, 3, 4, 5, 6, 7, 8, 9, 10], 11) \<and>
   infinite_flag (Iter_count 0 1) \<and>
   Iter_str str_int (Iter_count 0 1) =
     Some (concat (map (str_row str_int) (indexed 0 [0, 1, 2, 3, 4, 5, 6, 7, 8, 9, 10])) @
           ''...'', 11)"
proof -
  have h: "Iter_pulls (Iter_count 0 1) 11 = Some ([0, 1, 2, 3, 4, 5, 6, 7, 8, 9, 10], 11)"
    by (simp add: Iter_pulls_def Iter_count_def count_next_def eval_nat_numeral)
  from C8_preview_first_eleven [OF h, of str_int] h show ?thesis
    by (simp add: Iter_count_def)
qed

section \<open>Primes\<close>

lemma is_prime_gt_1: "is_prime p \<Longrightarrow> 1 < p"
  by (simp add: is_prime_def)

lemma is_prime_no_divisor: "is_prime n \<Longrightarrow> 2 \<le> d \<Longrightarrow> d < n \<Longrightarrow> \<not> d dvd n"
  by (simp add: is_prime_def)

lemma not_prime_divisor:
  "1 < n \<Longrightarrow> \<not> is_prime n \<Longrightarrow> \<exists>d. 2 \<le> d \<and> d < n \<and> d dvd n"
  by (auto simp add: is_prime_def)

lemma prime_factor: "1 < n \<Longrightarrow> \<exists>p. is_prime p \<and> p dvd n"
proof (induction "nat n" arbitrary: n rule: less_induct)
  case less
  show ?case
  proof (cases "is_prime n")
    case True
    then show ?thesis by auto
  next
    case False
    with less.prems obtain d where d: "2 \<le> d" "d < n" "d dvd n"
      using not_prime_divisor by blast
    then have "nat d < nat n" and "1 < d" by auto
    from less.hyps [OF this] obtain p where "is_prime p" and "p dvd d" by blast
    with d show ?thesis by (blast intro: dvd_trans)
  qed
qed

lemma small_prime_factor:
  assumes "1 < n" and "\<not> is_prime n"
  shows "\<exists>p. is_prime p \<and> p dvd n \<and> p * p \<le> n"
proof -
  from assms obtain d where d: "2 \<le> d" "d < n" "d dvd n"
    using not_prime_divisor by blast
  then obtain e where e: "n = d * e" by (auto elim: dvdE)
  have e2: "2 \<le> e"
  proof (rule ccontr)
    assume "\<not> 2 \<le> e"
    then have "e \<le> 1" by simp
    with d have "d * e \<le> d * 1" by (intro mult_left_mono) auto
    with e d show False by simp
  qed
  define a where "a = min d e"
  have a2: "2 \<le> a" using d e2 by (simp add: a_def)
  have "a dvd n" using e by (auto simp add: a_def min_def)
  have "a * a \<le> d * e"
    using d e2 by (intro mult_mono) (auto simp add: a_def)
  with e have aa: "a * a \<le> n" by simp
  from a2 obtain p where p: "is_prime p" "p dvd a"
    using prime_factor [of a] by auto
  from p a2 have "p \<le> a" by (intro zdvd_imp_le) auto
  moreover from p have "0 < p" by (auto dest: is_prime_gt_1)
  ultimately have "p * p \<le> a * a" by (intro mult_mono) auto
  with aa p \<open>a dvd n\<close> show ?thesis by (blast intro: dvd_trans order_trans)
qed

lemma prime_above: "\<exists>p. is_prime p \<and> n < p"
proof -
  let ?N = "int (fact (nat n)) + 1"
  have "1 < ?N" by (simp add: fact_gt_zero)
  then obtain p where p: "is_prime p" "p dvd ?N"
    using prime_factor by blast
  have "n < p"
  proof (rule ccontr)
    assume "\<not> n < p"
    with p have "1 \<le> nat p" and "nat p \<le> nat n" by (auto dest: is_prime_gt_1)
    then have "nat p dvd fact (nat n)" by (rule dvd_fact)
    then have "int (nat p) dvd int (fact (nat n))" by (simp only: int_dvd_int_iff)
    moreover from p have "int (nat p) = p" by (auto dest: is_prime_gt_1)
    ultimately have "p dvd int (fact (nat n))" by simp
    with p(2) have "p dvd 1" by (simp add: dvd_add_right_iff)
    with p(1) show False by (auto dest: is_prime_gt_1)
  qed
  with p show ?thesis by blast
qed

text \<open>
  The trial division loop, run on a strictly ascending list \<open>qs\<close> of primes
  below \<open>c\<close>, decides primality of \<open>c\<close> when every prime below \<open>c\<close> that is
  missing from \<open>qs\<close> is smaller than all of \<open>qs\<close> and does not divide \<open>c\<close>.
\<close>

lemma trial_division_correct:
  assumes "\<forall>p \<in> set qs. is_prime p \<and> p < c" and "sorted_wrt (<) qs" and "1 < c"
    and "\<forall>r. is_prime r \<and> r < c \<and> r \<notin> set qs \<longrightarrow> \<not> r dvd c \<and> (\<forall>p \<in> set qs. r < p)"
  shows "trial_division qs c = is_prime c"
  using assms
proof (induction qs)
  case Nil
  have "is_prime c"
  proof (rule ccontr)
    assume "\<not> is_prime c"
    with \<open>1 < c\<close> obtain d where d: "2 \<le> d" "d < c" "d dvd c"
      using not_prime_divisor by blast
    then obtain p where p: "is_prime p" "p dvd d"
      using prime_factor [of d] by auto
    with d have "p \<le> d" by (intro zdvd_imp_le) auto
    with d p Nil.prems(4) show False by (auto intro: dvd_trans)
  qed
  then show ?case by simp
next
  case (Cons p qs)
  from Cons.prems(1) have p: "is_prime p" "p < c" by simp_all
  show ?case
  proof (cases "p * p > c")
    case True
    have "is_prime c"
    proof (rule ccontr)
      assume "\<not> is_prime c"
      with \<open>1 < c\<close> obtain r where r: "is_prime r" "r dvd c" "r * r \<le> c"
        using small_prime_factor by blast
      from r(1) have r1: "1 < r" by (rule is_prime_gt_1)
      then have "r * 1 < r * r" by (intro mult_strict_left_mono) auto
      with r(3) have rc: "r < c" by simp
      have "r \<in> set (p # qs)"
        using Cons.prems(4) r rc by blast
      with Cons.prems(2) have "p \<le> r" by auto
      moreover from p(1) have "0 < p" by (auto dest: is_prime_gt_1)
      ultimately have "p * p \<le> r * r" by (intro mult_mono) auto
      with True r(3) show False by simp
    qed
    with True show ?thesis by simp
  next
    case False
    show ?thesis
    proof (cases "c mod p = 0")
      case True
      with p have "\<not> is_prime c"
        using is_prime_no_divisor [of c p] is_prime_gt_1 [of p] by auto
      with True False show ?thesis by simp
    next
      case nd: False
      have "trial_division qs c = is_prime c"
      proof (rule Cons.IH)
        show "\<forall>p \<in> set qs. is_prime p \<and> p < c" using Cons.prems(1) by simp
        show "sorted_wrt (<) qs" using Cons.prems(2) by simp
        show "1 < c" by fact
        show "\<forall>r. is_prime r \<and> r < c \<and> r \<notin> set qs \<longrightarrow>
            \<not> r dvd c \<and> (\<forall>p \<in> set qs. r < p)"
        proof (intro allI impI)
          fix r
          assume r: "is_prime r \<and> r < c \<and> r \<notin> set qs"
          show "\<not> r dvd c \<and> (\<forall>p \<in> set qs. r < p)"
          proof (cases "r = p")
            case True
            with nd Cons.prems(2) show ?thesis by (auto simp add: dvd_eq_mod_eq_0)
          next
            case False
            with r have "is_prime r \<and> r < c \<and> r \<notin> set (p # qs)" by simp
            with Cons.prems(4) show ?thesis by auto
          qed
        qed
      qed
      with False nd show ?thesis by simp
    qed
  qed
qed

lemma sorted_primes_upto: "sorted_wrt (<) (filter is_prime [2..m])"
  by (intro sorted_wrt_filter) (simp add: sorted_wrt_upto)

lemma trial_division_primes_below:
  assumes "1 < c"
  shows "trial_division (filter is_prime [2..c - 1]) c = is_prime c"
proof (rule trial_division_correct)
  show "\<forall>p \<in> set (filter is_prime [2..c - 1]). is_prime p \<and> p < c" by auto
  show "sorted_wrt (<) (filter is_prime [2..c - 1])" by (rule sorted_primes_upto)
  show "1 < c" by fact
  show "\<forall>r. is_prime r \<and> r < c \<and> r \<notin> set (filter is_prime [2..c - 1]) \<longrightarrow>
      \<not> r dvd c \<and> (\<forall>p \<in> set (filter is_prime [2..c - 1]). r < p)"
    by (auto dest: is_prime_gt_1)
qed

lemma primes_upto_Suc:
  "2 \<le> m \<Longrightarrow> filter is_prime [2..m] =
    filter is_prime [2..m - 1] @ (if is_prime m then [m] else [])"
  by (simp add: upto_rec2 [of 2 m])

lemma primes_upto_skip:
  assumes "1 \<le> m" and "\<not> is_prime (m + 1)"
  shows "filter is_prime [2..m + 1] = filter is_prime [2..m]"
proof -
  from assms(1) have "2 \<le> m + 1" by simp
  from primes_upto_Suc [OF this] assms(2) show ?thesis by simp
qed

lemma even_not_prime: "even n \<Longrightarrow> 2 < n \<Longrightarrow> \<not> is_prime n"
  using is_prime_no_divisor [of n 2] by auto

lemma is_prime_2: "is_prime 2"
  by (simp add: is_prime_def)

lemma primes_loop_finds:
  assumes "is_prime q" and "c \<le> q" and "odd c" and "3 \<le> c"
    and "ps = filter is_prime [2..c - 1]"
  shows "\<exists>q'. primes_loop ps c = Some (Some q', PYielded (ps @ [q']) q') \<and>
    is_prime q' \<and> odd q' \<and> 3 \<le> q' \<and> ps @ [q'] = filter is_prime [2..q']"
  using assms
proof (induction "nat (q - c)" arbitrary: c rule: less_induct)
  case less
  from less.prems have tc: "trial_division ps c = is_prime c"
    using trial_division_primes_below [of c] by simp
  show ?case
  proof (cases "is_prime c")
    case True
    with tc have "primes_loop ps c = Some (Some c, PYielded (ps @ [c]) c)"
      by (subst primes_loop.simps) simp
    moreover from True less.prems have "ps @ [c] = filter is_prime [2..c]"
      by (simp add: primes_upto_Suc [of c])
    ultimately show ?thesis using True less.prems by blast
  next
    case False
    with tc have loop: "primes_loop ps c = primes_loop ps (c + 2)"
      by (subst primes_loop.simps) simp
    from less.prems have np: "\<not> is_prime (c + 1)"
      by (intro even_not_prime) auto
    from False np less.prems have "q \<noteq> c" and "q \<noteq> c + 1" by auto
    with less.prems have q: "c + 2 \<le> q" by simp
    have e1: "filter is_prime [2..c + 1] = filter is_prime [2..c]"
      using less.prems np by (intro primes_upto_skip) auto
    have e2: "filter is_prime [2..c] = filter is_prime [2..c - 1]"
      using less.prems False by (simp add: primes_upto_Suc [of c])
    have e3: "c + 2 - 1 = c + 1" by simp
    have ps: "ps = filter is_prime [2..c + 2 - 1]"
      by (simp only: e3 e1 e2 less.prems(5))
    have "nat (q - (c + 2)) < nat (q - c)" using q by simp
    from less.hyps [OF this \<open>is_prime q\<close> q _ _ ps] less.prems loop
    show ?thesis by simp
  qed
qed

lemma primes_gen_step:
  assumes "primes_inv ps s"
  shows "\<exists>q s'. primes_gen s = Some (Some q, s') \<and> primes_inv (ps @ [q]) s'"
proof (cases s)
  case PStart
  with assms show ?thesis by simp
next
  case PYieldedTwo
  obtain q where q: "is_prime q" "3 < q" using prime_above [of 3] by blast
  have "[2] = filter is_prime [2..3 - 1]"
    by (simp add: is_prime_2 upto_rec1)
  from primes_loop_finds [OF q(1) _ _ _ this] q(2) PYieldedTwo assms
  show ?thesis by auto
next
  case (PYielded l c)
  with assms have l: "l = ps" and ps: "ps = filter is_prime [2..c]"
    and c: "odd c" "3 \<le> c" "is_prime c" by simp_all
  obtain q where q: "is_prime q" "c + 2 < q" using prime_above [of "c + 2"] by blast
  from c have "\<not> is_prime (c + 1)" by (intro even_not_prime) auto
  with c have e1: "filter is_prime [2..c + 1] = filter is_prime [2..c]"
    by (intro primes_upto_skip) auto
  have e3: "c + 2 - 1 = c + 1" by simp
  have "ps = filter is_prime [2..c + 2 - 1]"
    by (simp only: e3 e1 ps)
  from primes_loop_finds [OF q(1) _ _ _ this] q(2) c PYielded l
  show ?thesis by auto
qed

lemma primes_pulls:
  "\<exists>ps s. pulls primes_gen PStart n = Some (ps, s) \<and> length ps = n \<and> primes_inv ps s"
proof (induction n)
  case 0
  show ?case by simp
next
  case (Suc n)
  then obtain ps s where p: "pulls primes_gen PStart n = Some (ps, s)"
    and l: "length ps = n" and inv: "primes_inv ps s" by blast
  from primes_gen_step [OF inv] obtain q s' where
    q: "primes_gen s = Some (Some q, s')" "primes_inv (ps @ [q]) s'" by blast
  from pulls_Suc_snoc [OF p l] q(1)
  have "pulls primes_gen PStart (Suc n) = Some (ps @ [q], s')" by simp
  with q(2) l show ?case by simp
qed

lemma primes_inv_upto: "primes_inv ps s \<Longrightarrow> \<exists>m. ps = filter is_prime [2..m]"
proof (cases s)
  case PStart
  assume "primes_inv ps s"
  with PStart have "ps = filter is_prime [2..1]" by simp
  then show ?thesis by blast
next
  case PYieldedTwo
  assume "primes_inv ps s"
  with PYieldedTwo have "ps = filter is_prime [2..2]" by (simp add: is_prime_2 upto_rec1)
  then show ?thesis by blast
next
  case (PYielded l c)
  assume "primes_inv ps s"
  with PYielded show ?thesis by auto
qed

text \<open>
  What holds of \<open>primes()\<close>: for every \<open>n\<close>, the first \<open>n\<close> pulls all return,
  and the \<open>n\<close> elements they give are the primes up to some bound \<open>m\<close>, all of
  them, in strictly ascending order; the first is 2. The test the generator
  applies to a candidate \<open>c\<close>, trial division by the primes found so far (all
  primes below \<open>c\<close>) up to the square root of \<open>c\<close>, holds exactly when \<open>c\<close> is
  prime.
\<close>

lemma primes_ascending:
  "(\<exists>m s. Iter_pulls Iter_primes n = Some (filter is_prime [2..m], s) \<and>
      length (filter is_prime [2..m]) = n \<and>
      sorted_wrt (<) (filter is_prime [2..m])) \<and>
   Iter_pulls Iter_primes 1 = Some ([2], PYieldedTwo) \<and>
   (\<forall>c. 1 < c \<longrightarrow> trial_division (filter is_prime [2..c - 1]) c = is_prime c) \<and>
   infinite_flag Iter_primes"
proof -
  from primes_pulls [of n] obtain ps s where
    p: "pulls primes_gen PStart n = Some (ps, s)" and l: "length ps = n"
    and inv: "primes_inv ps s" by blast
  from primes_inv_upto [OF inv] obtain m where m: "ps = filter is_prime [2..m]" by blast
  from p l m have "\<exists>m s. Iter_pulls Iter_primes n = Some (filter is_prime [2..m], s) \<and>
      length (filter is_prime [2..m]) = n \<and>
      sorted_wrt (<) (filter is_prime [2..m])"
    using sorted_primes_upto by (auto simp add: Iter_pulls_def Iter_primes_def)
  moreover have "Iter_pulls Iter_primes 1 = Some ([2], PYieldedTwo)"
    by (simp add: Iter_pulls_def Iter_primes_def)
  moreover have "\<forall>c. 1 < c \<longrightarrow> trial_division (filter is_prime [2..c - 1]) c = is_prime c"
    using trial_division_primes_below by blast
  moreover have "infinite_flag Iter_primes"
    by (simp add: Iter_primes_def)
  ultimately show ?thesis by blast
qed

text \<open>
  C9 (the code at a failing input): \<open>primes().take(6)\<close> yields
  \<open>[2, 3, 5, 7, 11, 13]\<close> when pulled, but \<open>primes().take(6).collect()\<close> returns
  the empty list: the size hint that \<open>list(self)\<close> asks for runs \<open>__len__\<close>,
  which uses the elements up before the list is filled.
\<close>

theorem C9_primes_take_collect_empty:
  "Iter_pulls (Iter_take Iter_primes 6) (Suc 6) =
     Some ([2, 3, 5, 7, 11, 13], (True, 7, PYielded [2, 3, 5, 7, 11, 13, 17] 17)) \<and>
   Iter_collect (Iter_take Iter_primes 6) =
     Some (Inr [], (True, 7, PYielded [2, 3, 5, 7, 11, 13, 17] 17))"
proof -
  have h: "Iter_pulls Iter_primes (Suc 6) =
    Some ([2, 3, 5, 7, 11, 13, 17], PYielded [2, 3, 5, 7, 11, 13, 17] 17)"
    by (simp add: Iter_pulls_def Iter_primes_def primes_loop.simps eval_nat_numeral)
  from Iter_take_pulls [OF h] Iter_take_collect_empty [OF h] show ?thesis
    by (simp del: pulls.simps)
qed

end
